theory Spec2Isabelle
  imports Complex_Main "HOL-Library.List_Lexorder" "HOL-Library.Sublist" "HOL-Library.Multiset"
begin

section \<open>Strings\<close>

text \<open>
  A Python \<open>str\<close> is a sequence of Unicode code points; it is modelled as a list of
  code points. Comparison of such lists (\<open>List_Lexorder\<close>) is the lexicographic order on
  code points, which is the order Python's \<open>sorted\<close> uses on strings.
  \<open>str\<close> turns an ASCII literal into its code points: 40 is \<open>(\<close>, 41 is \<open>)\<close>,
  32 the space and 8211 the en dash.
\<close>

type_synonym pystr = "nat list"

definition str :: "string \<Rightarrow> pystr" where
  "str s = map of_char s"

text \<open>
  The characters that \<open>\s\<close> matches in a \<open>str\<close> pattern and that \<open>str.strip()\<close>
  removes: the code points for which \<open>str.isspace\<close> holds.
\<close>

definition is_space :: "nat \<Rightarrow> bool" where
  "is_space c \<longleftrightarrow>
     (9 \<le> c \<and> c \<le> 13) \<or> (28 \<le> c \<and> c \<le> 32) \<or> c = 133 \<or> c = 160 \<or> c = 5760 \<or>
     (8192 \<le> c \<and> c \<le> 8202) \<or> c = 8232 \<or> c = 8233 \<or> c = 8239 \<or> c = 8287 \<or> c = 12288"

text \<open>
  \<open>match_at xs\<close> is the attempt to match the pattern \<^verbatim>\<open>\s*\([^)]*\)\<close> at the start of
  \<open>xs\<close>: the run of whitespace is skipped (it cannot be shortened, since the next pattern
  item is \<open>(\<close>), then \<open>(\<close> is required, then everything up to the first \<open>)\<close> is
  consumed. The result is the text after the match, or \<open>None\<close> when there is no match.
\<close>

definition match_at :: "pystr \<Rightarrow> pystr option" where
  "match_at xs =
     (case dropWhile is_space xs of
        [] \<Rightarrow> None
      | c # zs \<Rightarrow>
          if c = 40 then
            (case dropWhile (\<lambda>d. d \<noteq> 41) zs of
               [] \<Rightarrow> None
             | _ # rest \<Rightarrow> Some rest)
          else None)"

text \<open>
  \<^verbatim>\<open>re.sub(r"\s*\([^)]*\)", "", text)\<close>: scanning from the left, a match is deleted and
  the scan goes on after it; where there is no match the character is kept. A match is
  never empty, so the scan always advances.
\<close>

function sub_parens :: "pystr \<Rightarrow> pystr" where
  "sub_parens [] = []"
| "sub_parens (c # cs) =
     (case match_at (c # cs) of
        Some rest \<Rightarrow> sub_parens rest
      | None \<Rightarrow> c # sub_parens cs)"
  by pat_completeness auto
termination
proof (relation "measure length")
  show "wf (measure length)" by simp
next
  fix c :: nat and cs rest :: pystr
  assume a: "match_at (c # cs) = Some rest"
  then obtain zs where z: "dropWhile is_space (c # cs) = 40 # zs"
    by (auto simp: match_at_def split: list.splits if_splits)
  with a obtain d where d: "dropWhile (\<lambda>d. d \<noteq> 41) zs = d # rest"
    by (auto simp: match_at_def split: list.splits)
  have "length (d # rest) \<le> length zs"
    using length_dropWhile_le [of "\<lambda>d. d \<noteq> 41" zs] d by simp
  moreover have "length (40 # zs) \<le> length (c # cs)"
    using length_dropWhile_le [of is_space "c # cs"] z by simp
  ultimately show "(rest, c # cs) \<in> measure length" by simp
next
  fix c :: nat and cs :: pystr
  show "(cs, c # cs) \<in> measure length" by simp
qed

definition strip :: "pystr \<Rightarrow> pystr" where
  "strip xs = rev (dropWhile is_space (rev (dropWhile is_space xs)))"

definition strip_parens :: "pystr \<Rightarrow> pystr" where
  "strip_parens text = strip (sub_parens text)"

section \<open>Records, cache and geocoder\<close>

text \<open>One flattened khachkar entry (a row of the data frame \<open>df\<close>).\<close>

record flat_record =
  place :: pystr
  site :: pystr
  imageurl :: pystr
  name :: pystr
  location :: pystr
  origin :: pystr
  sculptor :: pystr
  date :: pystr
  description :: pystr
  source :: pystr

text \<open>
  A coordinate cell of the cache table or of the data frame: \<open>None\<close> is a missing value
  (\<open>None\<close> or NaN, what \<open>dropna\<close> drops). Coordinates are only stored, compared and
  copied, so the floats are taken as the numbers they denote.
\<close>

type_synonym coord = "real option"

text \<open>
  A value of the \<open>query\<close> column of the cache table, and so a key of the dict \<open>cache\<close>:
  the strings the program puts there, and what \<open>pd.read_csv\<close> may give instead of a
  string (the missing value NaN, a number, a boolean). A key that is not a string is never
  equal to a location string, so it is never found by a lookup and never removed from the
  set of locations to resolve.
\<close>

datatype cell = Str pystr | NaN | Num real | Bool bool

type_synonym cache_row = "cell \<times> coord \<times> coord"

type_synonym cache_dict = "cell \<rightharpoonup> coord \<times> coord"

text \<open>What the geocoding service returns for a query it can resolve.\<close>

record geo_location =
  latitude :: real
  longitude :: real

text \<open>
  The rate-limited live geocoding call. The service is outside the program and may answer
  the same query differently at different times, so its answer is a function of the
  queries already sent during the run and of the query itself; \<open>None\<close> is "no result".
\<close>

type_synonym geocoder = "pystr list \<Rightarrow> pystr \<Rightarrow> geo_location option"

definition COUNTRIES :: "pystr list" where
  "COUNTRIES = [str ''Armenia'', str ''Turkey'', str ''Georgia'', str ''Iran'', str ''Azerbaijan'']"

definition MANUAL :: "cache_row list" where
  "MANUAL =
     [(Str (str ''Haghartzin (Dilijan)''), Some 40.8016, Some 44.8909),
      (Str (str ''Talin Kamsarakan (Talin)''), Some 40.3874, Some 43.8733)]"

text \<open>
  The cache file \<open>geocode_cache.csv\<close> is \<open>None\<close> when it does not exist and otherwise
  its contents, of a type \<open>'f\<close> that is left open. \<open>pd.read_csv\<close> and
  \<open>DataFrame.to_csv\<close> are library code: they are parameters of the model, \<open>read_csv\<close>
  giving the table read from a file and \<open>to_csv\<close> the file written from a table. Nothing
  is assumed about them; what a statement needs of them is a hypothesis of that statement.
  A file that \<open>pd.read_csv\<close> cannot read as a table with the columns \<open>query\<close>,
  \<open>lat\<close> and \<open>lon\<close> is outside the model.
\<close>

definition read_cache_df :: "('f \<Rightarrow> cache_row list) \<Rightarrow> 'f option \<Rightarrow> cache_row list" where
  "read_cache_df read_csv CACHE = (case CACHE of Some file \<Rightarrow> read_csv file | None \<Rightarrow> [])"

text \<open>The dict comprehension over the rows: a later row replaces an earlier one.\<close>

definition cache_of_rows :: "cache_row list \<Rightarrow> cache_dict" where
  "cache_of_rows rows = foldl (\<lambda>m (q, la, lo). m(q \<mapsto> (la, lo))) Map.empty rows"

text \<open>The cache after \<open>cache.update(MANUAL)\<close>.\<close>

definition load_cache :: "('f \<Rightarrow> cache_row list) \<Rightarrow> 'f option \<Rightarrow> cache_dict" where
  "load_cache read_csv CACHE = cache_of_rows (read_cache_df read_csv CACHE) ++ map_of MANUAL"

section \<open>Resolution loop\<close>

text \<open>
  \<open>sorted(set(df["location"]) - set(cache))\<close>: the distinct locations of the records
  that are not keys of the cache, in ascending order. The list is computed once, before
  the loop starts.
\<close>

definition pending :: "cache_dict \<Rightarrow> flat_record list \<Rightarrow> pystr list" where
  "pending c df = sort (remdups (filter (\<lambda>l. c (Str l) = None) (map location df)))"

text \<open>
  The loop over \<open>COUNTRIES\<close>; \<open>sent\<close> is the list of queries sent so far, oldest first.
  The loop leaves \<open>found\<close> at the last answer, which is \<open>None\<close> when no country matched.
\<close>

fun try_countries ::
  "geocoder \<Rightarrow> pystr list \<Rightarrow> pystr \<Rightarrow> pystr list \<Rightarrow> geo_location option \<times> pystr list" where
  "try_countries geocode sent loc_clean [] = (None, sent)"
| "try_countries geocode sent loc_clean (ctry # rest) =
     (let q = loc_clean @ str '', '' @ ctry;
          found = geocode sent q
      in if found \<noteq> None then (found, sent @ [q])
         else try_countries geocode (sent @ [q]) loc_clean rest)"

definition resolve_one ::
  "geocoder \<Rightarrow> pystr list \<Rightarrow> pystr \<Rightarrow> geo_location option \<times> pystr list" where
  "resolve_one geocode sent loc_raw =
     (let loc_clean = strip_parens loc_raw;
          (found, sent1) = try_countries geocode sent loc_clean COUNTRIES
      in if found = None
         then (geocode sent1 (strip_parens loc_raw), sent1 @ [strip_parens loc_raw])
         else (found, sent1))"

text \<open>
  The state the loop changes: the dict \<open>cache\<close>, the list \<open>new_rows\<close>, the raw strings
  named in the printed "couldn't geocode" notices, and the live calls made.
\<close>

record run_state =
  cache :: cache_dict
  new_rows :: "cache_row list"
  printed :: "pystr list"
  calls :: "pystr list"

definition resolve_step :: "geocoder \<Rightarrow> run_state \<Rightarrow> pystr \<Rightarrow> run_state" where
  "resolve_step geocode s loc_raw =
     (case resolve_one geocode (calls s) loc_raw of
        (Some found, sent') \<Rightarrow>
          s\<lparr>cache := (cache s)(Str loc_raw \<mapsto> (Some (latitude found), Some (longitude found))),
            new_rows := new_rows s
                        @ [(Str loc_raw, Some (latitude found), Some (longitude found))],
            calls := sent'\<rparr>
      | (None, sent') \<Rightarrow>
          s\<lparr>printed := printed s @ [loc_raw], calls := sent'\<rparr>)"

fun resolve_loop :: "geocoder \<Rightarrow> run_state \<Rightarrow> pystr list \<Rightarrow> run_state" where
  "resolve_loop geocode s [] = s"
| "resolve_loop geocode s (loc_raw # rest) =
     resolve_loop geocode (resolve_step geocode s loc_raw) rest"

text \<open>
  Writing the cache file, only when \<open>new_rows\<close> is not empty: the table that was read,
  followed by the new rows, is written over the file.
\<close>

definition persist ::
  "(cache_row list \<Rightarrow> 'f) \<Rightarrow> cache_row list \<Rightarrow> 'f option \<Rightarrow> cache_row list \<Rightarrow> 'f option" where
  "persist to_csv cache_df CACHE rows =
     (if rows \<noteq> [] then Some (to_csv (cache_df @ rows)) else CACHE)"

section \<open>Geocoded records and markers\<close>

text \<open>
  The columns \<open>lat\<close> and \<open>lon\<close> are looked up in the cache, with \<open>(None, None)\<close> for a
  location that is not a key, and \<open>dropna\<close> keeps the rows where both are present.
\<close>

definition geocoded :: "cache_dict \<Rightarrow> flat_record list \<Rightarrow> (flat_record \<times> real \<times> real) list" where
  "geocoded c df =
     List.map_filter
       (\<lambda>row. case c (Str (location row)) of
                 Some (Some lat, Some lon) \<Rightarrow> Some (row, lat, lon)
               | _ \<Rightarrow> None) df"

record marker =
  marker_location :: "real \<times> real"
  tooltip :: pystr

text \<open>
  The marker loop. A row whose image URL is empty is skipped (\<open>continue\<close>). The popup
  HTML is not modelled.
\<close>

fun markers :: "(flat_record \<times> real \<times> real) list \<Rightarrow> marker list" where
  "markers [] = []"
| "markers ((row, lat, lon) # rest) =
     (if imageurl row = [] then markers rest
      else \<lparr>marker_location = (lat, lon),
            tooltip = (if name row = [] then str ''Khachkar'' else name row)
                      @ [32, 8211, 32] @ location row\<rparr> # markers rest)"

section \<open>The run\<close>

text \<open>
  The run can end in two errors.
  \<^item> \<open>pd.DataFrame([])\<close> has no columns, so with no record at all \<open>df["location"]\<close>
    raises \<open>KeyError\<close>; this happens after the cache is loaded and before anything is
    queried or written.
  \<^item> When no record is left after \<open>dropna\<close>, the means of the empty columns \<open>lat\<close> and
    \<open>lon\<close> are NaN and \<open>folium.Map(location=center)\<close> raises \<open>ValueError\<close>; this
    happens after the loop, the writing of the cache file and \<open>dropna\<close>, and before any
    marker is made.

  The outcome holds what the run has done up to its end, normal or not: the state the
  loop left, the cache file, the records left after \<open>dropna\<close>, and as \<open>result\<close> the
  error or the markers of the map.
\<close>

datatype py_error = KeyError | ValueError

record 'f outcome =
  final :: run_state
  cache_file :: "'f option"
  df_geocoded :: "(flat_record \<times> real \<times> real) list"
  result :: "py_error + marker list"

definition run ::
  "('f \<Rightarrow> cache_row list) \<Rightarrow> (cache_row list \<Rightarrow> 'f) \<Rightarrow> geocoder \<Rightarrow> 'f option \<Rightarrow> flat_record list
     \<Rightarrow> 'f outcome" where
  "run read_csv to_csv geocode CACHE df =
     (let cache_df = read_cache_df read_csv CACHE;
          cache0 = cache_of_rows cache_df ++ map_of MANUAL;
          s0 = \<lparr>cache = cache0, new_rows = [], printed = [], calls = []\<rparr>
      in if df = []
         then \<lparr>final = s0, cache_file = CACHE, df_geocoded = [], result = Inl KeyError\<rparr>
         else
           let s = resolve_loop geocode s0 (pending cache0 df);
               df' = geocoded (cache s) df
           in \<lparr>final = s,
               cache_file = persist to_csv cache_df CACHE (new_rows s),
               df_geocoded = df',
               result = (if df' = [] then Inl ValueError else Inr (markers df'))\<rparr>)"

text \<open>
  A second run on the same records and the cache file the first run left, with a geocoder
  that may answer differently.
\<close>

definition second_run ::
  "('f \<Rightarrow> cache_row list) \<Rightarrow> (cache_row list \<Rightarrow> 'f) \<Rightarrow> geocoder \<Rightarrow> geocoder \<Rightarrow> 'f option
     \<Rightarrow> flat_record list \<Rightarrow> 'f outcome" where
  "second_run read_csv to_csv geocode geocode2 CACHE df =
     run read_csv to_csv geocode2 (cache_file (run read_csv to_csv geocode CACHE df)) df"

text \<open>
  The query variants of a cleaned location, in the order the resolver sends them: the
  five country-qualified strings, then the cleaned string alone.
\<close>

definition variants :: "pystr \<Rightarrow> pystr list" where
  "variants loc_clean = map (\<lambda>ctry. loc_clean @ str '', '' @ ctry) COUNTRIES @ [loc_clean]"

text \<open>
  The control flow of the resolver as a short-circuiting sequence of candidate queries:
  the queries are sent in order and the first answer that is not \<open>None\<close> wins.
  \<open>resolve_one\<close> is shown below to be \<open>first_hit\<close> on \<open>variants\<close>.
\<close>

fun first_hit :: "geocoder \<Rightarrow> pystr list \<Rightarrow> pystr list \<Rightarrow> geo_location option \<times> pystr list" where
  "first_hit geocode sent [] = (None, sent)"
| "first_hit geocode sent (q # qs) =
     (case geocode sent q of
        Some found \<Rightarrow> (Some found, sent @ [q])
      | None \<Rightarrow> first_hit geocode (sent @ [q]) qs)"

text \<open>
  The string keys of a table, in row order. The file written from a table \<open>d\<close> is read
  back with the same string keys when \<open>reads_back\<close> holds of \<open>d\<close>.
\<close>

definition str_keys :: "cache_row list \<Rightarrow> pystr list" where
  "str_keys d = List.map_filter (\<lambda>r. case fst r of Str q \<Rightarrow> Some q | _ \<Rightarrow> None) d"

definition reads_back ::
  "('f \<Rightarrow> cache_row list) \<Rightarrow> (cache_row list \<Rightarrow> 'f) \<Rightarrow> cache_row list \<Rightarrow> bool" where
  "reads_back read_csv to_csv d \<longleftrightarrow> set (str_keys (read_csv (to_csv d))) = set (str_keys d)"

section \<open>Scenarios\<close>

text \<open>
  A writer and a reader for the scenarios, on files that are lists of rows with the text
  of the query cell. They do what pandas does with the query cells that occur in the
  scenarios: a string is written as it is and a missing value as an empty cell; an empty
  cell is read as the missing value NaN and a cell that holds a place name as that string.
  Numbers and booleans do not occur in the scenarios, and the pair is not meant as a
  model of pandas on other cells (such as \<open>NA\<close> or \<open>1915\<close>).
\<close>

definition scenario_to_csv :: "cache_row list \<Rightarrow> (pystr \<times> coord \<times> coord) list" where
  "scenario_to_csv d =
     map (\<lambda>(k, la, lo). (case k of Str q \<Rightarrow> q | NaN \<Rightarrow> [] | Num x \<Rightarrow> [] | Bool b \<Rightarrow> [], la, lo)) d"

definition scenario_read_csv :: "(pystr \<times> coord \<times> coord) list \<Rightarrow> cache_row list" where
  "scenario_read_csv rows = map (\<lambda>(q, la, lo). (if q = [] then NaN else Str q, la, lo)) rows"

text \<open>A geocoder that resolves one query only, for the fallback-order scenario.\<close>

definition georgia_only :: geocoder where
  "georgia_only sent q =
     (if q = str ''Akhaltsikhe, Georgia'' then Some \<lparr>latitude = 41.6392, longitude = 42.9826\<rparr>
      else None)"

text \<open>
  A geocoder that never finds anything, a record whose location it therefore cannot
  resolve, and a record for the Georgia-only location.
\<close>

definition never_found :: geocoder where
  "never_found sent q = None"

definition nowhere_record :: flat_record where
  "nowhere_record =
     \<lparr>place = [], site = [], imageurl = str ''http://x/img.jpg'', name = str ''Stone'',
      location = str ''Nowhere'', origin = [], sculptor = [], date = [], description = [],
      source = []\<rparr>"

definition akhaltsikhe_record :: flat_record where
  "akhaltsikhe_record =
     \<lparr>place = str ''Akhaltsikhe'', site = [], imageurl = str ''http://x/a.jpg'', name = [],
      location = str ''Akhaltsikhe'', origin = [], sculptor = [], date = [], description = [],
      source = []\<rparr>"

text \<open>
  The record of the end-to-end scenario, whose location is a manual override, and the same
  record without an image URL.
\<close>

definition talin_record :: flat_record where
  "talin_record =
     \<lparr>place = str ''Talin'', site = str ''Kamsarakan Church'', imageurl = str ''http://x/img.jpg'',
      name = str ''Cross Stone 1'', location = str ''Talin Kamsarakan (Talin)'', origin = [],
      sculptor = [], date = [], description = [], source = []\<rparr>"

definition no_image_record :: flat_record where
  "no_image_record = talin_record\<lparr>imageurl := []\<rparr>"

text \<open>
  A khachkar entry without a \<open>Location\<close> field, whose location is therefore the empty
  string, and a geocoder that answers the query \<open>, Armenia\<close> (the empty cleaned string
  qualified with the first country) and nothing else.
\<close>

definition unlocated_record :: flat_record where
  "unlocated_record =
     \<lparr>place = str ''Ani'', site = [], imageurl = str ''http://x/u.jpg'', name = str ''Stone'',
      location = [], origin = [], sculptor = [], date = [], description = [], source = []\<rparr>"

definition armenia_only :: geocoder where
  "armenia_only sent q =
     (if q = str '', Armenia'' then Some \<lparr>latitude = 40.7696, longitude = 44.6736\<rparr>
      else None)"

section \<open>Cleaning\<close>




lemma match_at_suffix: "match_at xs = Some rest \<Longrightarrow> suffix rest xs"
proof -
  assume a: "match_at xs = Some rest"
  then obtain zs where z: "dropWhile is_space xs = 40 # zs"
    by (auto simp: match_at_def split: list.splits if_splits)
  with a obtain d where d: "dropWhile (\<lambda>d. d \<noteq> 41) zs = d # rest"
    by (auto simp: match_at_def split: list.splits)
  have "suffix (d # rest) zs"
    using suffix_dropWhile [of "\<lambda>d. d \<noteq> 41" zs] d by simp
  then have "suffix rest zs" by (rule suffix_ConsD)
  moreover have "suffix (40 # zs) xs"
    using suffix_dropWhile [of is_space xs] z by simp
  then have "suffix zs xs" by (rule suffix_ConsD)
  ultimately show ?thesis by (rule suffix_order.trans)
qed

lemma sub_parens_subseq: "subseq (sub_parens t) t"
proof (induction t rule: sub_parens.induct)
  case 1
  show ?case by simp
next
  case (2 c cs)
  show ?case
  proof (cases "match_at (c # cs)")
    case None
    with 2 show ?thesis by simp
  next
    case (Some rest)
    with 2 have "subseq (sub_parens rest) rest" by simp
    moreover have "subseq rest (c # cs)"
      using match_at_suffix [OF Some] by (rule suffix_imp_subseq)
    ultimately show ?thesis
      using Some by (simp add: subseq_order.trans)
  qed
qed

lemma is_space_40: "\<not> is_space 40"
  by (simp add: is_space_def)

lemma match_at_open_None: "match_at (40 # cs) = None \<Longrightarrow> 41 \<notin> set cs"
proof -
  assume "match_at (40 # cs) = None"
  then have "dropWhile (\<lambda>d. d \<noteq> 41) cs = []"
    by (simp add: match_at_def is_space_40 split: list.splits)
  then have "\<forall>x\<in>set cs. x \<noteq> 41" by (simp only: dropWhile_eq_Nil_conv)
  then show ?thesis by auto
qed

lemma sub_parens_no_pair: "\<not> subseq [40, 41] (sub_parens t)"
proof (induction t rule: sub_parens.induct)
  case 1
  show ?case by simp
next
  case (2 c cs)
  show ?case
  proof (cases "match_at (c # cs)")
    case (Some rest)
    with 2 show ?thesis by simp
  next
    case None
    show ?thesis
    proof (cases "c = 40")
      case True
      with None have "41 \<notin> set cs" by (simp add: match_at_open_None)
      then have "\<not> subseq [41] cs" by (simp add: subseq_singleton_left)
      then have "\<not> subseq [41] (sub_parens cs)"
        using sub_parens_subseq [of cs] subseq_order.trans by blast
      with None True show ?thesis by simp
    next
      case False
      with None 2 show ?thesis by simp
    qed
  qed
qed

lemma strip_sublist: "sublist (strip xs) xs"
proof -
  have "suffix (dropWhile is_space (rev (dropWhile is_space xs))) (rev (dropWhile is_space xs))"
    by (rule suffix_dropWhile)
  then have "prefix (strip xs) (dropWhile is_space xs)"
    by (simp add: suffix_to_prefix strip_def)
  then have "sublist (strip xs) (dropWhile is_space xs)" by (rule prefix_imp_sublist)
  moreover have "sublist (dropWhile is_space xs) xs"
    by (rule suffix_imp_sublist) (rule suffix_dropWhile)
  ultimately show ?thesis by (rule sublist_order.order.trans)
qed



lemma strip_parens_no_pair: "\<not> subseq [40, 41] (strip_parens t)"
proof
  assume "subseq [40, 41] (strip_parens t)"
  moreover have "subseq (strip_parens t) (sub_parens t)"
    unfolding strip_parens_def by (rule sublist_imp_subseq) (rule strip_sublist)
  ultimately have "subseq [40, 41] (sub_parens t)" by (rule subseq_order.trans)
  then show False by (simp add: sub_parens_no_pair)
qed





lemmas eval_clean = strip_parens_def strip_def str_def match_at_def is_space_def




section \<open>Fallback order\<close>

lemma try_countries_first_hit:
  "try_countries g h c cs = first_hit g h (map (\<lambda>ctry. c @ str '', '' @ ctry) cs)"
  by (induction cs arbitrary: h) (auto simp: Let_def split: option.splits)

lemma first_hit_snoc:
  "first_hit g h (qs @ [q]) =
     (case first_hit g h qs of
        (Some found, h') \<Rightarrow> (Some found, h')
      | (None, h') \<Rightarrow> (g h' q, h' @ [q]))"
proof (induction qs arbitrary: h)
  case Nil
  show ?case by (simp split: option.splits)
next
  case (Cons a qs)
  show ?case by (simp add: Cons.IH split: option.splits)
qed

lemma resolve_one_first_hit:
  "resolve_one g h loc_raw = first_hit g h (variants (strip_parens loc_raw))"
  by (simp add: resolve_one_def variants_def first_hit_snoc try_countries_first_hit Let_def
        split: prod.splits option.splits)

lemma first_hit_all_fail:
  "(\<And>j. j < length qs \<Longrightarrow> g (h @ take j qs) (qs ! j) = None) \<Longrightarrow>
   first_hit g h qs = (None, h @ qs)"
proof (induction qs arbitrary: h)
  case Nil
  show ?case by simp
next
  case (Cons q qs)
  have q: "g h q = None" using Cons.prems [of 0] by simp
  have "first_hit g (h @ [q]) qs = (None, (h @ [q]) @ qs)"
  proof (rule Cons.IH)
    fix j assume "j < length qs"
    then show "g ((h @ [q]) @ take j qs) (qs ! j) = None"
      using Cons.prems [of "Suc j"] by simp
  qed
  with q show ?case by simp
qed

lemma first_hit_at:
  "i < length qs \<Longrightarrow> (\<And>j. j < i \<Longrightarrow> g (h @ take j qs) (qs ! j) = None) \<Longrightarrow>
   g (h @ take i qs) (qs ! i) = Some v \<Longrightarrow>
   first_hit g h qs = (Some v, h @ take (Suc i) qs)"
proof (induction qs arbitrary: h i)
  case Nil
  then show ?case by simp
next
  case (Cons q qs)
  show ?case
  proof (cases i)
    case 0
    with Cons.prems(3) show ?thesis by simp
  next
    case (Suc k)
    have q: "g h q = None" using Cons.prems(2) [of 0] Suc by simp
    have "first_hit g (h @ [q]) qs = (Some v, (h @ [q]) @ take (Suc k) qs)"
    proof (rule Cons.IH)
      show "k < length qs" using Cons.prems(1) Suc by simp
    next
      fix j assume "j < k"
      then show "g ((h @ [q]) @ take j qs) (qs ! j) = None"
        using Cons.prems(2) [of "Suc j"] Suc by simp
    next
      show "g ((h @ [q]) @ take k qs) (qs ! k) = Some v"
        using Cons.prems(3) Suc by simp
    qed
    with q Suc show ?thesis by simp
  qed
qed

lemma first_hit_calls:
  "\<exists>k. k \<le> length qs \<and> (qs \<noteq> [] \<longrightarrow> 0 < k) \<and> snd (first_hit g h qs) = h @ take k qs"
proof (induction qs arbitrary: h)
  case Nil
  show ?case by simp
next
  case (Cons q qs)
  show ?case
  proof (cases "g h q")
    case (Some v)
    then have "snd (first_hit g h (q # qs)) = h @ take (Suc 0) (q # qs)" by simp
    then show ?thesis by (intro exI [of _ "Suc 0"]) simp
  next
    case None
    from Cons.IH [of "h @ [q]"] obtain k where
      k: "k \<le> length qs" "snd (first_hit g (h @ [q]) qs) = (h @ [q]) @ take k qs" by blast
    then have "snd (first_hit g h (q # qs)) = h @ take (Suc k) (q # qs)" using None by simp
    with k(1) show ?thesis by (intro exI [of _ "Suc k"]) simp
  qed
qed

lemma variants_explicit:
  "variants c = [c @ str '', Armenia'', c @ str '', Turkey'', c @ str '', Georgia'',
                  c @ str '', Iran'', c @ str '', Azerbaijan'', c]"
  by (simp add: variants_def COUNTRIES_def str_def)

lemma length_variants: "length (variants c) = 6"
  by (simp add: variants_def COUNTRIES_def)

section \<open>Cache and pending locations\<close>

lemma dom_cache_of_rows_aux:
  "dom (foldl (\<lambda>m (q, la, lo). m(q \<mapsto> (la, lo))) m rows) = dom m \<union> fst ` set rows"
  by (induction rows arbitrary: m) (auto split: prod.splits)

lemma dom_cache_of_rows: "dom (cache_of_rows rows) = fst ` set rows"
  by (simp add: cache_of_rows_def dom_cache_of_rows_aux)

lemma dom_load_cache:
  "dom (load_cache rd f) = fst ` set (read_cache_df rd f) \<union> fst ` set MANUAL"
  by (simp add: load_cache_def dom_cache_of_rows dom_map_of_conv_image_fst Un_commute)

lemma load_cache_manual:
  "k \<in> fst ` set MANUAL \<Longrightarrow> load_cache rd f k = map_of MANUAL k"
  by (simp add: load_cache_def map_add_dom_app_simps dom_map_of_conv_image_fst)

lemma load_cache_absent: "load_cache rd None = map_of MANUAL"
  by (simp add: load_cache_def read_cache_df_def cache_of_rows_def)


lemma sorted_pending: "sorted (pending c df)"
  by (simp add: pending_def)

lemma distinct_pending: "distinct (pending c df)"
  by (simp add: pending_def)

lemma set_pending: "set (pending c df) = {l \<in> location ` set df. Str l \<notin> dom c}"
proof -
  have "(c (Str l) = None) = (Str l \<notin> dom c)" for l
    by (cases "c (Str l)") (simp_all add: domIff)
  then show ?thesis by (simp add: pending_def)
qed

lemma pending_same_locations:
  assumes "location ` set df' = location ` set df"
  shows "pending c df' = pending c df"
proof (rule sorted_distinct_set_unique)
  show "set (pending c df') = set (pending c df)" by (simp add: set_pending assms)
qed (simp_all add: sorted_pending distinct_pending)

lemma pending_Nil: "pending c [] = []"
  by (simp add: pending_def)

lemma str_keys_iff: "q \<in> set (str_keys d) \<longleftrightarrow> Str q \<in> fst ` set d"
proof (induction d)
  case Nil
  show ?case by (simp add: str_keys_def)
next
  case (Cons r d)
  have step: "str_keys (r # d) = (case fst r of Str q' \<Rightarrow> q' # str_keys d | _ \<Rightarrow> str_keys d)"
    by (simp add: str_keys_def split: cell.splits)
  show ?case
  proof (cases "fst r")
    case (Str q')
    with step Cons show ?thesis by auto
  next
    case NaN
    with step Cons show ?thesis by auto
  next
    case (Num x)
    with step Cons show ?thesis by auto
  next
    case (Bool b)
    with step Cons show ?thesis by auto
  qed
qed

section \<open>The loop\<close>

lemma resolve_step_cases:
  obtains (hit) v h' where "resolve_one g (calls s) l = (Some v, h')"
      and "resolve_step g s l =
             s\<lparr>cache := (cache s)(Str l \<mapsto> (Some (latitude v), Some (longitude v))),
               new_rows := new_rows s @ [(Str l, Some (latitude v), Some (longitude v))],
               calls := h'\<rparr>"
  | (miss) h' where "resolve_one g (calls s) l = (None, h')"
      and "resolve_step g s l = s\<lparr>printed := printed s @ [l], calls := h'\<rparr>"
proof (cases "resolve_one g (calls s) l")
  case (Pair fo h')
  show ?thesis
  proof (cases fo)
    case None
    with Pair show ?thesis by (intro miss [of h']) (simp_all add: resolve_step_def)
  next
    case (Some v)
    with Pair show ?thesis by (intro hit [of v h']) (simp_all add: resolve_step_def)
  qed
qed

lemma resolve_one_calls:
  "\<exists>grp. grp \<noteq> [] \<and> prefix grp (variants (strip_parens l)) \<and> snd (resolve_one g h l) = h @ grp"
proof -
  let ?qs = "variants (strip_parens l)"
  from first_hit_calls [of ?qs g h] obtain k where
    k: "k \<le> length ?qs" "?qs \<noteq> [] \<longrightarrow> 0 < k" "snd (first_hit g h ?qs) = h @ take k ?qs"
    by blast
  have "?qs \<noteq> []" by (simp add: variants_def)
  with k have "take k ?qs \<noteq> []" by auto
  moreover have "prefix (take k ?qs) ?qs" by (rule take_is_prefix)
  ultimately show ?thesis using k(3) by (auto simp: resolve_one_first_hit)
qed

lemma resolve_step_calls:
  "\<exists>grp. grp \<noteq> [] \<and> prefix grp (variants (strip_parens l)) \<and>
         calls (resolve_step g s l) = calls s @ grp"
proof -
  from resolve_one_calls [of l g "calls s"] obtain grp where
    grp: "grp \<noteq> []" "prefix grp (variants (strip_parens l))"
         "snd (resolve_one g (calls s) l) = calls s @ grp" by blast
  have "calls (resolve_step g s l) = snd (resolve_one g (calls s) l)"
    by (cases rule: resolve_step_cases [of g s l]) simp_all
  with grp show ?thesis by auto
qed

lemma resolve_loop_calls:
  "\<exists>groups. list_all2 (\<lambda>l grp. grp \<noteq> [] \<and> prefix grp (variants (strip_parens l))) todo groups
      \<and> calls (resolve_loop g s todo) = calls s @ concat groups"
proof (induction todo arbitrary: s)
  case Nil
  show ?case by simp
next
  case (Cons l rest)
  from resolve_step_calls [of l g s] obtain grp where
    grp: "grp \<noteq> []" "prefix grp (variants (strip_parens l))"
         "calls (resolve_step g s l) = calls s @ grp" by blast
  from Cons.IH [of "resolve_step g s l"] obtain groups where
    gs: "list_all2 (\<lambda>l grp. grp \<noteq> [] \<and> prefix grp (variants (strip_parens l))) rest groups"
        "calls (resolve_loop g (resolve_step g s l) rest) = calls (resolve_step g s l) @ concat groups"
    by blast
  show ?case
    using grp gs by (intro exI [of _ "grp # groups"]) simp
qed

lemma resolve_loop_outcomes:
  "mset (map fst (new_rows (resolve_loop g s todo)))
     + mset (map Str (printed (resolve_loop g s todo)))
     = mset (map fst (new_rows s)) + mset (map Str (printed s)) + mset (map Str todo)"
proof (induction todo arbitrary: s)
  case Nil
  show ?case by simp
next
  case (Cons l rest)
  let ?s1 = "resolve_step g s l"
  have "mset (map fst (new_rows ?s1)) + mset (map Str (printed ?s1))
          = mset (map fst (new_rows s)) + mset (map Str (printed s)) + {#Str l#}"
    by (cases rule: resolve_step_cases [of g s l]) simp_all
  then show ?case using Cons.IH [of ?s1] by simp
qed

lemma resolve_loop_dom:
  "dom (cache s) = D \<union> fst ` set (new_rows s) \<Longrightarrow>
   dom (cache (resolve_loop g s todo)) = D \<union> fst ` set (new_rows (resolve_loop g s todo))"
proof (induction todo arbitrary: s)
  case Nil
  then show ?case by simp
next
  case (Cons l rest)
  show ?case
  proof (cases rule: resolve_step_cases [of g s l])
    case (hit v h')
    have "dom (cache (resolve_step g s l)) = D \<union> fst ` set (new_rows (resolve_step g s l))"
      using Cons.prems hit(2) by auto
    then show ?thesis using Cons.IH by simp
  next
    case (miss h')
    have "dom (cache (resolve_step g s l)) = D \<union> fst ` set (new_rows (resolve_step g s l))"
      using Cons.prems miss(2) by simp
    then show ?thesis using Cons.IH by simp
  qed
qed

lemma resolve_loop_rows_cached:
  "(\<forall>r\<in>set (new_rows s). cache s (fst r) = Some (snd r)) \<Longrightarrow>
   distinct (map fst (new_rows s) @ map Str todo) \<Longrightarrow>
   (\<forall>r\<in>set (new_rows (resolve_loop g s todo)).
       cache (resolve_loop g s todo) (fst r) = Some (snd r))
   \<and> distinct (map fst (new_rows (resolve_loop g s todo)))"
proof (induction todo arbitrary: s)
  case Nil
  then show ?case by simp
next
  case (Cons l rest)
  let ?s1 = "resolve_step g s l"
  have "(\<forall>r\<in>set (new_rows ?s1). cache ?s1 (fst r) = Some (snd r))
        \<and> distinct (map fst (new_rows ?s1) @ map Str rest)"
  proof (cases rule: resolve_step_cases [of g s l])
    case (hit v h')
    have "Str l \<notin> fst ` set (new_rows s)" using Cons.prems(2) by auto
    then have "\<forall>r\<in>set (new_rows s). fst r \<noteq> Str l" by force
    with Cons.prems(1) have "\<forall>r\<in>set (new_rows ?s1). cache ?s1 (fst r) = Some (snd r)"
      using hit(2) by auto
    moreover have "distinct (map fst (new_rows ?s1) @ map Str rest)"
      using Cons.prems(2) hit(2) by simp
    ultimately show ?thesis by simp
  next
    case (miss h')
    then show ?thesis using Cons.prems by simp
  qed
  then show ?case using Cons.IH [of ?s1] by simp
qed

lemma resolve_loop_printed_sorted:
  "sorted (printed s @ todo) \<Longrightarrow> distinct (printed s @ todo) \<Longrightarrow>
   sorted (printed (resolve_loop g s todo)) \<and> distinct (printed (resolve_loop g s todo))"
proof (induction todo arbitrary: s)
  case Nil
  then show ?case by simp
next
  case (Cons l rest)
  let ?s1 = "resolve_step g s l"
  have "sorted (printed ?s1 @ rest) \<and> distinct (printed ?s1 @ rest)"
  proof (cases rule: resolve_step_cases [of g s l])
    case (hit v h')
    then show ?thesis using Cons.prems by (auto simp: sorted_append)
  next
    case (miss h')
    then show ?thesis using Cons.prems by simp
  qed
  then show ?case using Cons.IH [of ?s1] by simp
qed

lemma resolve_loop_frame:
  "k \<notin> Str ` set todo \<Longrightarrow> cache (resolve_loop g s todo) k = cache s k"
proof (induction todo arbitrary: s)
  case Nil
  show ?case by simp
next
  case (Cons l' rest)
  then have "k \<noteq> Str l'" and r: "k \<notin> Str ` set rest" by auto
  then have "cache (resolve_step g s l') k = cache s k"
    by (cases rule: resolve_step_cases [of g s l']) simp_all
  then show ?case using Cons.IH [OF r] by simp
qed

lemma resolve_one_all_fail:
  assumes "\<forall>h. \<forall>q\<in>set (variants (strip_parens l)). g h q = None"
  shows "resolve_one g h l = (None, h @ variants (strip_parens l))"
proof -
  let ?qs = "variants (strip_parens l)"
  have "first_hit g h ?qs = (None, h @ ?qs)"
  proof (rule first_hit_all_fail)
    fix j assume "j < length ?qs"
    then have "?qs ! j \<in> set ?qs" by (rule nth_mem)
    with assms show "g (h @ take j ?qs) (?qs ! j) = None" by blast
  qed
  then show ?thesis by (simp add: resolve_one_first_hit)
qed

lemma resolve_step_all_fail:
  assumes "\<forall>h. \<forall>q\<in>set (variants (strip_parens l)). g h q = None"
  shows "resolve_step g s l =
           s\<lparr>printed := printed s @ [l], calls := calls s @ variants (strip_parens l)\<rparr>"
  by (simp add: resolve_step_def resolve_one_all_fail [OF assms])




lemma resolve_loop_calls_from:
  "q \<in> set (calls (resolve_loop g s todo)) \<Longrightarrow>
   q \<in> set (calls s) \<or> (\<exists>l\<in>set todo. q \<in> set (variants (strip_parens l)))"
proof (induction todo arbitrary: s)
  case Nil
  then show ?case by simp
next
  case (Cons l' rest)
  let ?s1 = "resolve_step g s l'"
  from Cons.prems have "q \<in> set (calls (resolve_loop g ?s1 rest))" by simp
  from Cons.IH [OF this] have
    "q \<in> set (calls ?s1) \<or> (\<exists>l\<in>set rest. q \<in> set (variants (strip_parens l)))" .
  moreover from resolve_step_calls [of l' g s] obtain grp where
    grp: "prefix grp (variants (strip_parens l'))" "calls ?s1 = calls s @ grp" by blast
  then have "set grp \<subseteq> set (variants (strip_parens l'))" by (auto simp: prefix_def)
  ultimately show ?case using grp(2) by auto
qed


section \<open>Facts about the run\<close>

lemma final_run:
  "final (run rd wr g f df)
     = resolve_loop g \<lparr>cache = load_cache rd f, new_rows = [], printed = [], calls = []\<rparr>
         (pending (load_cache rd f) df)"
  by (simp add: run_def Let_def load_cache_def pending_Nil)

lemma cache_file_run:
  "cache_file (run rd wr g f df)
     = persist wr (read_cache_df rd f) f (new_rows (final (run rd wr g f df)))"
  by (simp add: run_def Let_def persist_def)

lemma df_geocoded_run:
  "df_geocoded (run rd wr g f df) = geocoded (cache (final (run rd wr g f df))) df"
  by (simp add: run_def Let_def geocoded_def)

lemma result_run:
  "result (run rd wr g f df)
     = (if df = [] then Inl KeyError
        else if df_geocoded (run rd wr g f df) = [] then Inl ValueError
        else Inr (markers (df_geocoded (run rd wr g f df))))"
  by (simp add: run_def Let_def)


lemma geocoded_Nil_iff:
  "geocoded c df = [] \<longleftrightarrow>
     (\<forall>l\<in>location ` set df. \<not> (\<exists>la lo. c (Str l) = Some (Some la, Some lo)))"
  by (induction df) (auto simp: geocoded_def split: option.splits prod.splits)

lemma run_outcomes:
  "mset (map fst (new_rows (final (run rd wr g f df)))
         @ map Str (printed (final (run rd wr g f df))))
     = mset (map Str (pending (load_cache rd f) df))"
  using resolve_loop_outcomes
          [of g "\<lparr>cache = load_cache rd f, new_rows = [], printed = [], calls = []\<rparr>"
              "pending (load_cache rd f) df"]
  by (simp add: final_run)

lemma run_rows_printed:
  fixes rd :: "'f \<Rightarrow> cache_row list" and wr :: "cache_row list \<Rightarrow> 'f" and g f df
  defines "out \<equiv> run rd wr g f df"
  shows "fst ` set (new_rows (final out)) \<union> Str ` set (printed (final out))
           = Str ` {l \<in> location ` set df. Str l \<notin> dom (load_cache rd f)}"
    and "fst ` set (new_rows (final out)) \<inter> Str ` set (printed (final out)) = {}"
    and "distinct (map fst (new_rows (final out)))"
    and "sorted (printed (final out))" and "distinct (printed (final out))"
proof -
  let ?rows = "map fst (new_rows (final out))" and ?pr = "printed (final out)"
  let ?todo = "pending (load_cache rd f) df"
  have m: "mset (?rows @ map Str ?pr) = mset (map Str ?todo)"
    unfolding out_def by (rule run_outcomes)
  from m have "set (?rows @ map Str ?pr) = set (map Str ?todo)" by (rule mset_eq_setD)
  then show "fst ` set (new_rows (final out)) \<union> Str ` set ?pr
               = Str ` {l \<in> location ` set df. Str l \<notin> dom (load_cache rd f)}"
    by (simp add: set_pending)
  have "distinct (map Str ?todo)" by (simp add: distinct_map distinct_pending inj_on_def)
  moreover from m have "distinct (?rows @ map Str ?pr) = distinct (map Str ?todo)"
    by (rule mset_eq_imp_distinct_iff)
  ultimately have d: "distinct (?rows @ map Str ?pr)" by simp
  then show "fst ` set (new_rows (final out)) \<inter> Str ` set ?pr = {}" by simp
  from d show "distinct ?rows" by simp
  from d have "distinct (map Str ?pr)" by simp
  then show "distinct ?pr" by (simp add: distinct_map)
  show "sorted ?pr"
    using resolve_loop_printed_sorted
            [of "\<lparr>cache = load_cache rd f, new_rows = [], printed = [], calls = []\<rparr>" ?todo g]
    by (simp add: out_def final_run sorted_pending distinct_pending)
qed


section \<open>Order of the queries\<close>

text \<open>
  C1: for a location the loop hands to the resolver, the queries are the cleaned string
  qualified with Armenia, Turkey, Georgia, Iran and Azerbaijan, in this order, and then the
  cleaned string alone. The resolver stops at the first query that has a result: if query
  number \<open>i\<close> (from 0) is the first with a result, exactly the queries 0 to \<open>i\<close> are
  sent, in order, and that result is returned; the bare query (number 5) is sent only when
  the five qualified ones had no result, and when all six have none the six are sent once
  each and the resolver returns nothing. So a location resolvable only under Georgia is
  queried under Armenia, Turkey and Georgia, in that order.
\<close>

theorem resolve_one_fallback_order:
  shows
  "(variants c = [c @ str '', Armenia'', c @ str '', Turkey'', c @ str '', Georgia'',
                   c @ str '', Iran'', c @ str '', Azerbaijan'', c]) \<and>
   (i < 6
    \<and> (\<forall>j<i. g (h @ take j (variants (strip_parens loc_raw)))
                  (variants (strip_parens loc_raw) ! j) = None)
    \<and> g (h @ take i (variants (strip_parens loc_raw)))
          (variants (strip_parens loc_raw) ! i) = Some v
    \<longrightarrow> resolve_one g h loc_raw
          = (Some v, h @ take (Suc i) (variants (strip_parens loc_raw)))) \<and>
   ((\<forall>j<6. g (h @ take j (variants (strip_parens loc_raw)))
               (variants (strip_parens loc_raw) ! j) = None)
    \<longrightarrow> resolve_one g h loc_raw = (None, h @ variants (strip_parens loc_raw)))"
proof -
  let ?qs = "variants (strip_parens loc_raw)"
  have part1: "variants c = [c @ str '', Armenia'', c @ str '', Turkey'', c @ str '', Georgia'',
                  c @ str '', Iran'', c @ str '', Azerbaijan'', c]"
    by (rule variants_explicit)
  have part2: "i < 6 \<and> (\<forall>j<i. g (h @ take j ?qs) (?qs ! j) = None)
         \<and> g (h @ take i ?qs) (?qs ! i) = Some v
   \<longrightarrow> resolve_one g h loc_raw = (Some v, h @ take (Suc i) ?qs)"
  proof (intro impI, elim conjE)
    assume i: "i < 6" and none: "\<forall>j<i. g (h @ take j ?qs) (?qs ! j) = None"
      and hit: "g (h @ take i ?qs) (?qs ! i) = Some v"
    have "first_hit g h ?qs = (Some v, h @ take (Suc i) ?qs)"
    proof (rule first_hit_at)
      show "i < length ?qs" using i by (simp add: length_variants)
    next
      fix j assume "j < i"
      with none show "g (h @ take j ?qs) (?qs ! j) = None" by simp
    next
      show "g (h @ take i ?qs) (?qs ! i) = Some v" by (rule hit)
    qed
    then show "resolve_one g h loc_raw = (Some v, h @ take (Suc i) ?qs)"
      by (simp add: resolve_one_first_hit)
  qed
  have part3: "(\<forall>j<6. g (h @ take j ?qs) (?qs ! j) = None)
   \<longrightarrow> resolve_one g h loc_raw = (None, h @ ?qs)"
  proof
    assume none: "\<forall>j<6. g (h @ take j ?qs) (?qs ! j) = None"
    have "first_hit g h ?qs = (None, h @ ?qs)"
    proof (rule first_hit_all_fail)
      fix j assume "j < length ?qs"
      then have "j < 6" by (simp add: length_variants)
      with none show "g (h @ take j ?qs) (?qs ! j) = None" by simp
    qed
    then show "resolve_one g h loc_raw = (None, h @ ?qs)"
      by (simp add: resolve_one_first_hit)
  qed
  show ?thesis
    by (rule conjI [OF part1 conjI [OF part2 part3]])
qed

theorem resolve_one_fallback_order_witness:
  "resolve_one georgia_only [] (str ''Akhaltsikhe'')
     = (Some \<lparr>latitude = 41.6392, longitude = 42.9826\<rparr>,
        [str ''Akhaltsikhe, Armenia'', str ''Akhaltsikhe, Turkey'', str ''Akhaltsikhe, Georgia''])
   \<and> resolve_one never_found [] (str ''Nowhere'')
     = (None, [str ''Nowhere, Armenia'', str ''Nowhere, Turkey'', str ''Nowhere, Georgia'',
               str ''Nowhere, Iran'', str ''Nowhere, Azerbaijan'', str ''Nowhere''])"
proof -
  have "resolve_one georgia_only [] (str ''Akhaltsikhe'')
     = (Some \<lparr>latitude = 41.6392, longitude = 42.9826\<rparr>,
        [str ''Akhaltsikhe, Armenia'', str ''Akhaltsikhe, Turkey'', str ''Akhaltsikhe, Georgia''])"
    using resolve_one_fallback_order
            [where i = "Suc (Suc 0)" and g = georgia_only and h = "[]"
               and loc_raw = "str ''Akhaltsikhe''"
               and v = "\<lparr>latitude = 41.6392, longitude = 42.9826\<rparr>",
             THEN conjunct2, THEN conjunct1]
    by (simp add: eval_clean variants_explicit georgia_only_def All_less_Suc)
  moreover have "resolve_one never_found [] (str ''Nowhere'')
     = (None, [str ''Nowhere, Armenia'', str ''Nowhere, Turkey'', str ''Nowhere, Georgia'',
               str ''Nowhere, Iran'', str ''Nowhere, Azerbaijan'', str ''Nowhere''])"
    using resolve_one_fallback_order
            [where g = never_found and h = "[]" and loc_raw = "str ''Nowhere''",
             THEN conjunct2, THEN conjunct2]
    by (simp add: eval_clean variants_explicit never_found_def)
  ultimately show ?thesis by (rule conjI)
qed

section \<open>Scenario runs\<close>

lemma manual_nowhere: "map_of MANUAL (Str (str ''Nowhere'')) = None"
  by (simp add: MANUAL_def str_def)

lemma manual_akhaltsikhe: "map_of MANUAL (Str (str ''Akhaltsikhe'')) = None"
  by (simp add: MANUAL_def str_def)

lemma manual_empty: "map_of MANUAL (Str []) = None"
  by (simp add: MANUAL_def str_def)

lemma manual_talin:
  "map_of MANUAL (Str (str ''Talin Kamsarakan (Talin)'')) = Some (Some 40.3874, Some 43.8733)"
  by (simp add: MANUAL_def str_def)

lemma talin_cached:
  "load_cache rd f (Str (str ''Talin Kamsarakan (Talin)'')) = Some (Some 40.3874, Some 43.8733)"
proof -
  have "Str (str ''Talin Kamsarakan (Talin)'') \<in> fst ` set MANUAL" by (simp add: MANUAL_def)
  then have "load_cache rd f (Str (str ''Talin Kamsarakan (Talin)''))
               = map_of MANUAL (Str (str ''Talin Kamsarakan (Talin)''))"
    by (rule load_cache_manual)
  then show ?thesis by (simp add: manual_talin)
qed

lemma never_found_fails: "\<forall>h. \<forall>q\<in>set (variants c). never_found h q = None"
  by (simp add: never_found_def)

lemma clean_nowhere: "strip_parens (str ''Nowhere'') = str ''Nowhere''"
  by (simp add: eval_clean)

lemma clean_empty: "strip_parens [] = []"
  by (simp add: strip_parens_def strip_def)

lemma resolve_one_akhaltsikhe:
  "resolve_one georgia_only h (str ''Akhaltsikhe'')
     = (Some \<lparr>latitude = 41.6392, longitude = 42.9826\<rparr>,
        h @ [str ''Akhaltsikhe, Armenia'', str ''Akhaltsikhe, Turkey'',
             str ''Akhaltsikhe, Georgia''])"
  by (simp add: resolve_one_def COUNTRIES_def georgia_only_def Let_def eval_clean)

lemma resolve_one_empty:
  "resolve_one armenia_only h []
     = (Some \<lparr>latitude = 40.7696, longitude = 44.6736\<rparr>, h @ [str '', Armenia''])"
  by (simp add: resolve_one_def COUNTRIES_def armenia_only_def Let_def clean_empty str_def)


lemma run_nowhere:
  "run rd wr never_found None [nowhere_record] =
     \<lparr>final = \<lparr>cache = map_of MANUAL, new_rows = [], printed = [str ''Nowhere''],
                calls = variants (str ''Nowhere'')\<rparr>,
      cache_file = None, df_geocoded = [], result = Inl ValueError\<rparr>"
proof -
  have p: "pending (map_of MANUAL) [nowhere_record] = [str ''Nowhere'']"
    by (simp add: pending_def nowhere_record_def manual_nowhere)
  have g: "geocoded (map_of MANUAL) [nowhere_record] = []"
    by (simp add: geocoded_def nowhere_record_def manual_nowhere)
  show ?thesis
    using p g
    by (simp add: run_def Let_def read_cache_df_def cache_of_rows_def
          resolve_step_all_fail [OF never_found_fails] clean_nowhere persist_def)
qed

lemma run_nowhere_talin:
  "run rd wr never_found None [nowhere_record, talin_record] =
     \<lparr>final = \<lparr>cache = map_of MANUAL, new_rows = [], printed = [str ''Nowhere''],
                calls = variants (str ''Nowhere'')\<rparr>,
      cache_file = None, df_geocoded = [(talin_record, 40.3874, 43.8733)],
      result = Inr (markers [(talin_record, 40.3874, 43.8733)])\<rparr>"
proof -
  have p: "pending (map_of MANUAL) [nowhere_record, talin_record] = [str ''Nowhere'']"
    by (simp add: pending_def nowhere_record_def talin_record_def manual_nowhere manual_talin)
  have g: "geocoded (map_of MANUAL) [nowhere_record, talin_record]
             = [(talin_record, 40.3874, 43.8733)]"
    using manual_nowhere manual_talin
    by (simp add: geocoded_def nowhere_record_def talin_record_def)
  show ?thesis
    using p g
    by (simp add: run_def Let_def read_cache_df_def cache_of_rows_def
          resolve_step_all_fail [OF never_found_fails] clean_nowhere persist_def)
qed

lemma markers_talin:
  "markers [(talin_record, 40.3874, 43.8733)] =
     [\<lparr>marker_location = (40.3874, 43.8733),
       tooltip = str ''Cross Stone 1'' @ [32, 8211, 32] @ str ''Talin Kamsarakan (Talin)''\<rparr>]"
  by (simp add: talin_record_def str_def)

section \<open>A run that geocodes nothing, and the empty location\<close>

text \<open>
  C5 at an input where it fails: one record located at \<open>Nowhere\<close>, a geocoder that finds
  nothing, no cache file. The notice naming \<open>Nowhere\<close> is printed once and the record is
  dropped, but then no record is left and the run does not go on without a fatal error: it
  ends in \<open>ValueError\<close> where the map is constructed.
\<close>

theorem unresolved_only_run_aborts:
  "printed (final (run scenario_read_csv scenario_to_csv never_found None [nowhere_record]))
     = [str ''Nowhere'']
   \<and> df_geocoded (run scenario_read_csv scenario_to_csv never_found None [nowhere_record]) = []
   \<and> result (run scenario_read_csv scenario_to_csv never_found None [nowhere_record])
       = Inl ValueError"
  by (simp add: run_nowhere)

lemma run_unlocated_first:
  "run scenario_read_csv scenario_to_csv armenia_only None [unlocated_record] =
     \<lparr>final = \<lparr>cache = (map_of MANUAL)(Str [] \<mapsto> (Some 40.7696, Some 44.6736)),
                new_rows = [(Str [], Some 40.7696, Some 44.6736)], printed = [],
                calls = [str '', Armenia'']\<rparr>,
      cache_file = Some [([], Some 40.7696, Some 44.6736)],
      df_geocoded = [(unlocated_record, 40.7696, 44.6736)],
      result = Inr (markers [(unlocated_record, 40.7696, 44.6736)])\<rparr>"
proof -
  have p: "pending (map_of MANUAL) [unlocated_record] = [[]]"
    by (simp add: pending_def unlocated_record_def manual_empty)
  have g: "geocoded ((map_of MANUAL)(Str [] \<mapsto> (Some 40.7696, Some 44.6736))) [unlocated_record]
             = [(unlocated_record, 40.7696, 44.6736)]"
    by (simp add: geocoded_def unlocated_record_def)
  show ?thesis
    using p g
    by (simp add: run_def Let_def read_cache_df_def cache_of_rows_def resolve_step_def
          resolve_one_empty persist_def scenario_to_csv_def)
qed

lemma run_unlocated_second:
  "run scenario_read_csv scenario_to_csv armenia_only
       (Some [([], Some 40.7696, Some 44.6736)]) [unlocated_record] =
     \<lparr>final = \<lparr>cache = ([NaN \<mapsto> (Some 40.7696, Some 44.6736)] ++ map_of MANUAL)
                          (Str [] \<mapsto> (Some 40.7696, Some 44.6736)),
                new_rows = [(Str [], Some 40.7696, Some 44.6736)], printed = [],
                calls = [str '', Armenia'']\<rparr>,
      cache_file = Some [([], Some 40.7696, Some 44.6736), ([], Some 40.7696, Some 44.6736)],
      df_geocoded = [(unlocated_record, 40.7696, 44.6736)],
      result = Inr (markers [(unlocated_record, 40.7696, 44.6736)])\<rparr>"
proof -
  let ?c0 = "[NaN \<mapsto> (Some 40.7696, Some 44.6736)] ++ map_of MANUAL"
  have c: "?c0 (Str []) = None" by (simp add: map_add_def manual_empty)
  have p: "pending ?c0 [unlocated_record] = [[]]"
    using c by (simp add: pending_def unlocated_record_def)
  have g: "geocoded (?c0(Str [] \<mapsto> (Some 40.7696, Some 44.6736))) [unlocated_record]
             = [(unlocated_record, 40.7696, 44.6736)]"
    by (simp add: geocoded_def unlocated_record_def)
  show ?thesis
    using p g
    by (simp add: run_def Let_def read_cache_df_def cache_of_rows_def resolve_step_def
          resolve_one_empty persist_def scenario_to_csv_def scenario_read_csv_def)
qed

text \<open>
  C4 at an input where it fails: one record without \<open>Location\<close>, a geocoder that resolves
  the query \<open>, Armenia\<close>, no cache file, two runs. The first run reports nothing and writes
  one row, with the empty query. Its empty cell is read back as a missing value and not as
  the empty string, so the second run sends the query again and writes the table with a
  second row for the empty location: the file then holds two rows with the same query
  string.
\<close>

theorem empty_location_row_written_twice:
  "cache_file (run scenario_read_csv scenario_to_csv armenia_only None [unlocated_record])
     = Some [([], Some 40.7696, Some 44.6736)]
   \<and> printed (final (run scenario_read_csv scenario_to_csv armenia_only None [unlocated_record]))
       = []
   \<and> calls (final (second_run scenario_read_csv scenario_to_csv armenia_only armenia_only None
                      [unlocated_record]))
       = [str '', Armenia'']
   \<and> cache_file (second_run scenario_read_csv scenario_to_csv armenia_only armenia_only None
                    [unlocated_record])
       = Some [([], Some 40.7696, Some 44.6736), ([], Some 40.7696, Some 44.6736)]"
  using run_unlocated_first run_unlocated_second by (simp add: second_run_def)

section \<open>A second run\<close>

text \<open>
  C2, as the claim states it (for every input set), fails: with a geocoder that finds
  nothing, one record located at \<open>Nowhere\<close> and the record of the end-to-end scenario, the
  first run ends normally and writes no cache file, and the second run, which ends normally
  too, sends all six queries for \<open>Nowhere\<close> again.
\<close>

theorem second_run_queries_again:
  "cache_file (run scenario_read_csv scenario_to_csv never_found None
                 [nowhere_record, talin_record]) = None
   \<and> \<not> isl (result (run scenario_read_csv scenario_to_csv never_found None
                      [nowhere_record, talin_record]))
   \<and> calls (final (second_run scenario_read_csv scenario_to_csv never_found never_found None
                      [nowhere_record, talin_record]))
       = [str ''Nowhere, Armenia'', str ''Nowhere, Turkey'', str ''Nowhere, Georgia'',
          str ''Nowhere, Iran'', str ''Nowhere, Azerbaijan'', str ''Nowhere'']
   \<and> \<not> isl (result (second_run scenario_read_csv scenario_to_csv never_found never_found None
                      [nowhere_record, talin_record]))"
  by (simp add: second_run_def run_nowhere_talin variants_explicit str_def)

lemma str_dom_after_run:
  fixes rd :: "'f \<Rightarrow> cache_row list" and wr :: "cache_row list \<Rightarrow> 'f" and g f df
  defines "out \<equiv> run rd wr g f df"
  assumes rb: "new_rows (final out) \<noteq> [] \<longrightarrow>
                 set (str_keys (rd (wr (read_cache_df rd f @ new_rows (final out)))))
                   \<subseteq> set (str_keys (read_cache_df rd f @ new_rows (final out)))"
  shows "Str l \<in> dom (load_cache rd (cache_file out)) \<Longrightarrow>
         Str l \<in> dom (load_cache rd f) \<or> Str l \<in> fst ` set (new_rows (final out))"
proof -
  assume a: "Str l \<in> dom (load_cache rd (cache_file out))"
  have cf: "cache_file out = persist wr (read_cache_df rd f) f (new_rows (final out))"
    unfolding out_def by (rule cache_file_run)
  show ?thesis
  proof (cases "new_rows (final out) = []")
    case True
    then have "cache_file out = f" by (simp add: cf persist_def)
    with a show ?thesis by simp
  next
    case False
    let ?d = "read_cache_df rd f @ new_rows (final out)"
    from False have "read_cache_df rd (cache_file out) = rd (wr ?d)"
      by (simp add: cf persist_def read_cache_df_def)
    with a have "Str l \<in> fst ` set (rd (wr ?d)) \<or> Str l \<in> fst ` set MANUAL"
      by (simp add: dom_load_cache)
    then show ?thesis
    proof
      assume "Str l \<in> fst ` set (rd (wr ?d))"
      then have "l \<in> set (str_keys (rd (wr ?d)))" by (simp add: str_keys_iff)
      with rb False have "l \<in> set (str_keys ?d)" by blast
      then have "Str l \<in> fst ` set ?d" by (simp add: str_keys_iff)
      then show ?thesis by (auto simp: dom_load_cache)
    next
      assume "Str l \<in> fst ` set MANUAL"
      then show ?thesis by (simp add: dom_load_cache)
    qed
  qed
qed

lemma str_dom_kept_by_run:
  fixes rd :: "'f \<Rightarrow> cache_row list" and wr :: "cache_row list \<Rightarrow> 'f" and g f df
  defines "out \<equiv> run rd wr g f df"
  assumes rb: "new_rows (final out) \<noteq> [] \<longrightarrow>
                 set (str_keys (read_cache_df rd f @ new_rows (final out)))
                   \<subseteq> set (str_keys (rd (wr (read_cache_df rd f @ new_rows (final out)))))"
  shows "Str l \<in> dom (load_cache rd f) \<or> Str l \<in> fst ` set (new_rows (final out)) \<Longrightarrow>
         Str l \<in> dom (load_cache rd (cache_file out))"
proof -
  assume a: "Str l \<in> dom (load_cache rd f) \<or> Str l \<in> fst ` set (new_rows (final out))"
  have cf: "cache_file out = persist wr (read_cache_df rd f) f (new_rows (final out))"
    unfolding out_def by (rule cache_file_run)
  show ?thesis
  proof (cases "new_rows (final out) = []")
    case True
    then have "cache_file out = f" by (simp add: cf persist_def)
    with a True show ?thesis by simp
  next
    case False
    let ?d = "read_cache_df rd f @ new_rows (final out)"
    from False have rd2: "read_cache_df rd (cache_file out) = rd (wr ?d)"
      by (simp add: cf persist_def read_cache_df_def)
    from a have "Str l \<in> fst ` set ?d \<or> Str l \<in> fst ` set MANUAL"
      by (auto simp: dom_load_cache)
    then show ?thesis
    proof
      assume "Str l \<in> fst ` set ?d"
      then have "l \<in> set (str_keys ?d)" by (simp add: str_keys_iff)
      with rb False have "l \<in> set (str_keys (rd (wr ?d)))" by blast
      then have "Str l \<in> fst ` set (rd (wr ?d))" by (simp add: str_keys_iff)
      then show ?thesis by (simp add: dom_load_cache rd2)
    next
      assume "Str l \<in> fst ` set MANUAL"
      then show ?thesis by (simp add: dom_load_cache)
    qed
  qed
qed

text \<open>
  C2, amended: let the file a run writes be read back with the same string keys as the
  table it was written from (nothing is said of a run whose file is read back otherwise).
  Then a second run on the same records and the cache file the first run left hands to the
  resolver exactly the location strings that the first run reported as not geocodable, in
  the same order; every location of the input is then a key of the loaded cache or among
  those reported. If the first run reported none, the second run sends no live query and
  leaves the cache file as it is.
\<close>

theorem second_run_requeries_failures:
  fixes rd :: "'f \<Rightarrow> cache_row list" and wr :: "cache_row list \<Rightarrow> 'f"
  assumes "new_rows (final (run rd wr g f df)) \<noteq> [] \<longrightarrow>
             reads_back rd wr (read_cache_df rd f @ new_rows (final (run rd wr g f df)))"
  shows
  "(pending (load_cache rd (cache_file (run rd wr g f df))) df
      = printed (final (run rd wr g f df))) \<and>
   (location ` set df
      \<subseteq> {l. Str l \<in> dom (load_cache rd (cache_file (run rd wr g f df)))}
        \<union> set (printed (final (run rd wr g f df)))) \<and>
   (printed (final (run rd wr g f df)) = [] \<longrightarrow>
      calls (final (second_run rd wr g g2 f df)) = []
      \<and> cache_file (second_run rd wr g g2 f df) = cache_file (run rd wr g f df))"
proof -
  let ?out = "run rd wr g f df"
  let ?d = "read_cache_df rd f @ new_rows (final ?out)"
  note rp = run_rows_printed [of rd wr g f df]
  from assms have sub1: "new_rows (final ?out) \<noteq> [] \<longrightarrow>
      set (str_keys (rd (wr ?d))) \<subseteq> set (str_keys ?d)"
    and sub2: "new_rows (final ?out) \<noteq> [] \<longrightarrow>
      set (str_keys ?d) \<subseteq> set (str_keys (rd (wr ?d)))"
    by (auto simp: reads_back_def)
  have dom1: "Str l \<in> dom (load_cache rd (cache_file ?out)) \<longleftrightarrow>
              Str l \<in> dom (load_cache rd f) \<or> Str l \<in> fst ` set (new_rows (final ?out))" for l
    using str_dom_after_run [OF sub1, of l] str_dom_kept_by_run [OF sub2, of l] by blast
  have sets: "set (pending (load_cache rd (cache_file ?out)) df) = set (printed (final ?out))"
  proof (intro set_eqI iffI)
    fix l assume "l \<in> set (pending (load_cache rd (cache_file ?out)) df)"
    then have l: "l \<in> location ` set df" "Str l \<notin> dom (load_cache rd f)"
      "Str l \<notin> fst ` set (new_rows (final ?out))"
      by (auto simp: set_pending dom1)
    then have "Str l \<in> Str ` {l \<in> location ` set df. Str l \<notin> dom (load_cache rd f)}" by blast
    with rp(1) have "Str l \<in> fst ` set (new_rows (final ?out)) \<union> Str ` set (printed (final ?out))"
      by simp
    with l(3) show "l \<in> set (printed (final ?out))" by auto
  next
    fix l assume p: "l \<in> set (printed (final ?out))"
    then have "Str l \<in> fst ` set (new_rows (final ?out)) \<union> Str ` set (printed (final ?out))"
      by blast
    with rp(1) have "Str l \<in> Str ` {l \<in> location ` set df. Str l \<notin> dom (load_cache rd f)}"
      by simp
    then have "l \<in> location ` set df" "Str l \<notin> dom (load_cache rd f)" by auto
    moreover have "Str l \<notin> fst ` set (new_rows (final ?out))" using rp(2) p by blast
    ultimately show "l \<in> set (pending (load_cache rd (cache_file ?out)) df)"
      by (simp add: set_pending dom1)
  qed
  have part1: "pending (load_cache rd (cache_file ?out)) df = printed (final ?out)"
  proof (rule sorted_distinct_set_unique)
    show "sorted (pending (load_cache rd (cache_file ?out)) df)" by (rule sorted_pending)
    show "distinct (pending (load_cache rd (cache_file ?out)) df)" by (rule distinct_pending)
    show "sorted (printed (final ?out))" by (rule rp(4))
    show "distinct (printed (final ?out))" by (rule rp(5))
    show "set (pending (load_cache rd (cache_file ?out)) df) = set (printed (final ?out))"
      by (rule sets)
  qed
  have part2: "location ` set df
      \<subseteq> {l. Str l \<in> dom (load_cache rd (cache_file ?out))} \<union> set (printed (final ?out))"
  proof
    fix l assume l: "l \<in> location ` set df"
    show "l \<in> {l. Str l \<in> dom (load_cache rd (cache_file ?out))} \<union> set (printed (final ?out))"
    proof (cases "Str l \<in> dom (load_cache rd (cache_file ?out))")
      case True
      then show ?thesis by simp
    next
      case False
      with l have "l \<in> set (pending (load_cache rd (cache_file ?out)) df)"
        by (simp add: set_pending)
      with sets show ?thesis by simp
    qed
  qed
  have part3: "printed (final ?out) = [] \<longrightarrow>
      calls (final (second_run rd wr g g2 f df)) = []
      \<and> cache_file (second_run rd wr g g2 f df) = cache_file ?out"
  proof
    assume "printed (final ?out) = []"
    with part1 have p: "pending (load_cache rd (cache_file ?out)) df = []" by simp
    have f2: "final (second_run rd wr g g2 f df)
                = \<lparr>cache = load_cache rd (cache_file ?out), new_rows = [], printed = [], calls = []\<rparr>"
      by (simp add: second_run_def final_run p)
    then have "cache_file (second_run rd wr g g2 f df) = cache_file ?out"
      using cache_file_run [of rd wr g2 "cache_file ?out" df]
      by (simp add: second_run_def persist_def)
    with f2 show "calls (final (second_run rd wr g g2 f df)) = []
      \<and> cache_file (second_run rd wr g g2 f df) = cache_file ?out" by simp
  qed
  show ?thesis
    by (rule conjI [OF part1 conjI [OF part2 part3]])
qed

lemma run_akhaltsikhe_final:
  "final (run rd wr georgia_only None [akhaltsikhe_record]) =
     \<lparr>cache = (map_of MANUAL)(Str (str ''Akhaltsikhe'') \<mapsto> (Some 41.6392, Some 42.9826)),
      new_rows = [(Str (str ''Akhaltsikhe''), Some 41.6392, Some 42.9826)],
      printed = [],
      calls = [str ''Akhaltsikhe, Armenia'', str ''Akhaltsikhe, Turkey'',
               str ''Akhaltsikhe, Georgia'']\<rparr>"
proof -
  have p: "pending (map_of MANUAL) [akhaltsikhe_record] = [str ''Akhaltsikhe'']"
    by (simp add: pending_def akhaltsikhe_record_def manual_akhaltsikhe)
  show ?thesis
    using p by (simp add: final_run load_cache_absent resolve_step_def resolve_one_akhaltsikhe)
qed

lemma scenario_reads_back_akhaltsikhe:
  "reads_back scenario_read_csv scenario_to_csv
     [(Str (str ''Akhaltsikhe''), Some 41.6392, Some 42.9826)]"
  by (simp add: reads_back_def scenario_read_csv_def scenario_to_csv_def str_keys_def str_def)

theorem second_run_requeries_failures_witness:
  "printed (final (run scenario_read_csv scenario_to_csv georgia_only None [akhaltsikhe_record]))
     = []
   \<and> new_rows (final (run scenario_read_csv scenario_to_csv georgia_only None
                        [akhaltsikhe_record])) \<noteq> []
   \<and> pending (load_cache scenario_read_csv
                (cache_file (run scenario_read_csv scenario_to_csv georgia_only None
                               [akhaltsikhe_record])))
        [akhaltsikhe_record] = []
   \<and> calls (final (second_run scenario_read_csv scenario_to_csv georgia_only never_found None
                      [akhaltsikhe_record])) = []"
proof -
  have rb: "new_rows (final (run scenario_read_csv scenario_to_csv georgia_only None
                               [akhaltsikhe_record])) \<noteq> [] \<longrightarrow>
            reads_back scenario_read_csv scenario_to_csv
              (read_cache_df scenario_read_csv None
               @ new_rows (final (run scenario_read_csv scenario_to_csv georgia_only None
                                    [akhaltsikhe_record])))"
    using scenario_reads_back_akhaltsikhe
    by (simp add: run_akhaltsikhe_final read_cache_df_def)
  have p: "printed (final (run scenario_read_csv scenario_to_csv georgia_only None
                             [akhaltsikhe_record])) = []"
    and n: "new_rows (final (run scenario_read_csv scenario_to_csv georgia_only None
                               [akhaltsikhe_record])) \<noteq> []"
    by (simp_all add: run_akhaltsikhe_final)
  note T = second_run_requeries_failures [OF rb, where ?g2.0 = never_found]
  from T [THEN conjunct1] T [THEN conjunct2, THEN conjunct2] p n
  show ?thesis by simp
qed

section \<open>Unresolvable locations and the absent cache file\<close>




text \<open>
  C8: with no cache file, loading gives the cache that holds the manual overrides only.
  That is the cache loaded from a file that holds no rows, and the run with no file is the
  run on such a file, except that a run that resolves nothing new leaves the file absent
  instead of leaving the file as it is.
\<close>

theorem absent_cache_file_tolerated:
  fixes rd :: "'f \<Rightarrow> cache_row list" and wr :: "cache_row list \<Rightarrow> 'f"
  shows
  "(load_cache rd None = map_of MANUAL) \<and>
   (rd csv = [] \<longrightarrow> load_cache rd None = load_cache rd (Some csv)) \<and>
   (rd csv = [] \<longrightarrow>
      run rd wr g None df =
        (run rd wr g (Some csv) df)
          \<lparr>cache_file := (if new_rows (final (run rd wr g (Some csv) df)) = [] then None
                          else cache_file (run rd wr g (Some csv) df))\<rparr>)"
proof -
  have part1: "load_cache rd None = map_of MANUAL" by (rule load_cache_absent)
  have part2: "rd csv = [] \<longrightarrow> load_cache rd None = load_cache rd (Some csv)"
    by (simp add: load_cache_def read_cache_df_def)
  have part3: "rd csv = [] \<longrightarrow>
      run rd wr g None df =
        (run rd wr g (Some csv) df)
          \<lparr>cache_file := (if new_rows (final (run rd wr g (Some csv) df)) = [] then None
                          else cache_file (run rd wr g (Some csv) df))\<rparr>"
    by (simp add: run_def Let_def read_cache_df_def persist_def)
  show ?thesis
    by (rule conjI [OF part1 conjI [OF part2 part3]])
qed

theorem absent_cache_file_tolerated_witness:
  "scenario_read_csv [] = []
   \<and> load_cache scenario_read_csv None = load_cache scenario_read_csv (Some [])
   \<and> final (run scenario_read_csv scenario_to_csv never_found None [nowhere_record, talin_record])
       = final (run scenario_read_csv scenario_to_csv never_found (Some [])
                  [nowhere_record, talin_record])
   \<and> result (run scenario_read_csv scenario_to_csv never_found None [nowhere_record, talin_record])
       = result (run scenario_read_csv scenario_to_csv never_found (Some [])
                   [nowhere_record, talin_record])
   \<and> cache_file (run scenario_read_csv scenario_to_csv never_found None
                    [nowhere_record, talin_record]) = None"
proof -
  have e: "scenario_read_csv [] = []" by (simp add: scenario_read_csv_def)
  note T = absent_cache_file_tolerated
             [where rd = scenario_read_csv and wr = scenario_to_csv and csv = "[]"
                and g = never_found and df = "[nowhere_record, talin_record]"]
  from T [THEN conjunct2, THEN conjunct1] e
  have l: "load_cache scenario_read_csv None = load_cache scenario_read_csv (Some [])" by simp
  from T [THEN conjunct2, THEN conjunct2] e
  have r: "run scenario_read_csv scenario_to_csv never_found None [nowhere_record, talin_record] =
        (run scenario_read_csv scenario_to_csv never_found (Some []) [nowhere_record, talin_record])
          \<lparr>cache_file := (if new_rows (final (run scenario_read_csv scenario_to_csv never_found
                                                 (Some []) [nowhere_record, talin_record])) = []
                          then None
                          else cache_file (run scenario_read_csv scenario_to_csv never_found
                                             (Some []) [nowhere_record, talin_record]))\<rparr>"
    by simp
  have f: "final (run scenario_read_csv scenario_to_csv never_found None [nowhere_record, talin_record])
       = final (run scenario_read_csv scenario_to_csv never_found (Some [])
                  [nowhere_record, talin_record])"
    by (subst r) simp
  have s: "result (run scenario_read_csv scenario_to_csv never_found None [nowhere_record, talin_record])
       = result (run scenario_read_csv scenario_to_csv never_found (Some [])
                   [nowhere_record, talin_record])"
    by (subst r) simp
  have c: "cache_file (run scenario_read_csv scenario_to_csv never_found None
                    [nowhere_record, talin_record]) = None"
    by (simp add: run_nowhere_talin)
  show ?thesis using e l f s c by simp
qed

section \<open>Manual overrides, markers and the order of resolution\<close>

lemma pair_append:
  "41 \<notin> set ys \<Longrightarrow> subseq [40, 41] (xs @ ys) \<Longrightarrow> subseq [40, 41] xs"
proof (induction xs)
  case Nil
  then have "subseq [41] ys" using subseq_Cons' by fastforce
  then have "41 \<in> set ys" by (simp add: subseq_singleton_left)
  with Nil show ?case by simp
next
  case (Cons x xs)
  show ?case
  proof (cases "x = 40")
    case True
    with Cons.prems have "subseq [41] (xs @ ys)" by simp
    then have "41 \<in> set xs" using Cons.prems(1) by (simp add: subseq_singleton_left)
    then show ?thesis using True by (simp add: subseq_singleton_left)
  next
    case False
    with Cons show ?thesis by simp
  qed
qed

lemma variants_no_pair:
  assumes "q \<in> set (variants (strip_parens l))"
  shows "\<not> subseq [40, 41] q"
proof
  assume sq: "subseq [40, 41] q"
  from assms consider "q = strip_parens l"
    | ctry where "ctry \<in> set COUNTRIES" "q = strip_parens l @ str '', '' @ ctry"
    by (auto simp: variants_def)
  then show False
  proof cases
    case 1
    with sq show False by (simp add: strip_parens_no_pair)
  next
    case 2
    have "41 \<notin> set (str '', '' @ ctry)" using 2(1) by (auto simp: COUNTRIES_def str_def)
    from pair_append [OF this] sq 2(2) have "subseq [40, 41] (strip_parens l)" by simp
    then show False by (simp add: strip_parens_no_pair)
  qed
qed

lemma manual_has_pair: "Str k \<in> fst ` set MANUAL \<Longrightarrow> subseq [40, 41] k"
  by (auto simp: MANUAL_def str_def)

text \<open>
  C3: whatever the cache file holds and whatever the records are, a key of the manual
  overrides is mapped by the loaded cache to its manual coordinates (a persisted entry for
  the same key is replaced), is never among the pending locations handed to the resolver,
  is not itself a query string sent to the geocoder, gets neither a notice nor a new cache
  row, and still has its manual coordinates in the cache at the end of the run.
\<close>

theorem manual_override_never_queried:
  fixes rd :: "'f \<Rightarrow> cache_row list" and wr :: "cache_row list \<Rightarrow> 'f"
  assumes "Str k \<in> fst ` set MANUAL"
  shows
  "(load_cache rd f (Str k) = map_of MANUAL (Str k)) \<and>
   (k \<notin> set (pending (load_cache rd f) df)) \<and>
   (k \<notin> set (calls (final (run rd wr g f df)))
    \<and> k \<notin> set (printed (final (run rd wr g f df)))
    \<and> Str k \<notin> fst ` set (new_rows (final (run rd wr g f df)))
    \<and> cache (final (run rd wr g f df)) (Str k) = map_of MANUAL (Str k))"
proof -
  let ?out = "run rd wr g f df"
  let ?s0 = "\<lparr>cache = load_cache rd f, new_rows = [], printed = [], calls = []\<rparr>"
  have lc: "load_cache rd f (Str k) = map_of MANUAL (Str k)"
    using assms by (rule load_cache_manual)
  have kd: "Str k \<in> dom (load_cache rd f)" using assms by (simp add: dom_load_cache)
  then have np: "k \<notin> set (pending (load_cache rd f) df)" by (simp add: set_pending)
  have fin: "final ?out = resolve_loop g ?s0 (pending (load_cache rd f) df)"
    by (rule final_run)
  have c: "k \<notin> set (calls (final ?out))"
  proof
    assume "k \<in> set (calls (final ?out))"
    then have "k \<in> set (calls ?s0)
               \<or> (\<exists>l\<in>set (pending (load_cache rd f) df). k \<in> set (variants (strip_parens l)))"
      unfolding fin by (rule resolve_loop_calls_from)
    then obtain l where "k \<in> set (variants (strip_parens l))" by auto
    then have "\<not> subseq [40, 41] k" by (rule variants_no_pair)
    with manual_has_pair [OF assms] show False by simp
  qed
  have "Str k \<notin> fst ` set (new_rows (final ?out)) \<union> Str ` set (printed (final ?out))"
    using run_rows_printed(1) [of rd wr g f df] kd by auto
  then have p: "k \<notin> set (printed (final ?out))"
    and n: "Str k \<notin> fst ` set (new_rows (final ?out))" by auto
  have "Str k \<notin> Str ` set (pending (load_cache rd f) df)" using np by auto
  then have e: "cache (final ?out) (Str k) = map_of MANUAL (Str k)"
    using resolve_loop_frame [of "Str k" "pending (load_cache rd f) df" g ?s0] lc
    by (simp add: fin)
  have part3: "k \<notin> set (calls (final ?out)) \<and> k \<notin> set (printed (final ?out))
    \<and> Str k \<notin> fst ` set (new_rows (final ?out))
    \<and> cache (final ?out) (Str k) = map_of MANUAL (Str k)"
    using c p n e by simp
  show ?thesis
    by (rule conjI [OF lc conjI [OF np part3]])
qed

theorem manual_override_never_queried_witness:
  "Str (str ''Talin Kamsarakan (Talin)'') \<in> fst ` set MANUAL
   \<and> scenario_read_csv [(str ''Talin Kamsarakan (Talin)'', Some 1, Some 2)]
       = [(Str (str ''Talin Kamsarakan (Talin)''), Some 1, Some 2)]
   \<and> load_cache scenario_read_csv (Some [(str ''Talin Kamsarakan (Talin)'', Some 1, Some 2)])
        (Str (str ''Talin Kamsarakan (Talin)'')) = Some (Some 40.3874, Some 43.8733)
   \<and> str ''Talin Kamsarakan (Talin)''
        \<notin> set (calls (final (run scenario_read_csv scenario_to_csv never_found
               (Some [(str ''Talin Kamsarakan (Talin)'', Some 1, Some 2)]) [talin_record])))"
proof -
  let ?k = "str ''Talin Kamsarakan (Talin)''"
  let ?f = "Some [(?k, Some 1, Some 2)]"
  have k: "Str ?k \<in> fst ` set MANUAL" by (simp add: MANUAL_def)
  have r: "scenario_read_csv [(?k, Some 1, Some 2)] = [(Str ?k, Some 1, Some 2)]"
    by (simp add: scenario_read_csv_def str_def)
  note T = manual_override_never_queried
             [OF k, where rd = scenario_read_csv and wr = scenario_to_csv and f = ?f
                and g = never_found and df = "[talin_record]"]
  from T [THEN conjunct1] T [THEN conjunct2, THEN conjunct2] k r manual_talin
  show ?thesis by simp
qed

lemma run_manual_only:
  assumes "location r = str ''Talin Kamsarakan (Talin)''"
  shows "run rd wr g f [r] =
     \<lparr>final = \<lparr>cache = load_cache rd f, new_rows = [], printed = [], calls = []\<rparr>,
      cache_file = f, df_geocoded = [(r, 40.3874, 43.8733)],
      result = Inr (markers [(r, 40.3874, 43.8733)])\<rparr>"
proof -
  have c: "(cache_of_rows (read_cache_df rd f) ++ map_of MANUAL)
             (Str (str ''Talin Kamsarakan (Talin)'')) = Some (Some 40.3874, Some 43.8733)"
    using talin_cached [of rd f] by (simp add: load_cache_def)
  have p: "pending (cache_of_rows (read_cache_df rd f) ++ map_of MANUAL) [r] = []"
    by (simp add: pending_def assms manual_talin)
  have g: "geocoded (cache_of_rows (read_cache_df rd f) ++ map_of MANUAL) [r]
             = [(r, 40.3874, 43.8733)]"
    using c by (simp add: geocoded_def assms)
  show ?thesis
    using p g by (simp add: run_def Let_def persist_def load_cache_def)
qed

lemma markers_filter:
  "markers rows =
     map (\<lambda>(row, lat, lon).
            \<lparr>marker_location = (lat, lon),
             tooltip = (if name row = [] then str ''Khachkar'' else name row)
                       @ [32, 8211, 32] @ location row\<rparr>)
         (filter (\<lambda>(row, lat, lon). imageurl row \<noteq> []) rows)"
  by (induction rows rule: markers.induct) simp_all

text \<open>
  C7, as the claim states it (one marker for every geocoded record), fails: the marker
  loop skips a record whose image URL is empty. The record of the end-to-end scenario
  without its image URL is geocoded by the manual override and gets no marker.
\<close>

theorem marker_skipped_without_image:
  "df_geocoded (run scenario_read_csv scenario_to_csv never_found None [no_image_record])
     = [(no_image_record, 40.3874, 43.8733)]
   \<and> result (run scenario_read_csv scenario_to_csv never_found None [no_image_record]) = Inr []"
proof -
  have l: "location no_image_record = str ''Talin Kamsarakan (Talin)''"
    by (simp add: no_image_record_def talin_record_def)
  have i: "imageurl no_image_record = []" by (simp add: no_image_record_def)
  show ?thesis by (simp add: run_manual_only [OF l] i)
qed

text \<open>
  C7, amended: the renderer produces, in order, exactly one marker for every geocoded
  record whose image URL is not empty, at that record's (lat, lon), with the tooltip
  formed of the name (or \<open>Khachkar\<close> when the name is empty), a space, an en dash, a
  space and the location string; a record with an empty image URL gets no marker. For the
  record of the end-to-end scenario, with any cache file and any geocoder, no live query is
  sent and the one marker is at (40.3874, 43.8733) with the tooltip made of
  \<open>Cross Stone 1\<close>, a space, the en dash (code point 8211), a space and
  \<open>Talin Kamsarakan (Talin)\<close>.
\<close>

theorem markers_for_records_with_image:
  fixes rd :: "'f \<Rightarrow> cache_row list" and wr :: "cache_row list \<Rightarrow> 'f"
  shows
  "(markers rows =
      map (\<lambda>(row, lat, lon).
             \<lparr>marker_location = (lat, lon),
              tooltip = (if name row = [] then str ''Khachkar'' else name row)
                        @ [32, 8211, 32] @ location row\<rparr>)
          (filter (\<lambda>(row, lat, lon). imageurl row \<noteq> []) rows)) \<and>
   (calls (final (run rd wr g f [talin_record])) = []
      \<and> df_geocoded (run rd wr g f [talin_record]) = [(talin_record, 40.3874, 43.8733)]
      \<and> result (run rd wr g f [talin_record]) =
          Inr [\<lparr>marker_location = (40.3874, 43.8733),
                tooltip = str ''Cross Stone 1'' @ [32, 8211, 32]
                          @ str ''Talin Kamsarakan (Talin)''\<rparr>])"
proof -
  have part1: "markers rows =
      map (\<lambda>(row, lat, lon).
             \<lparr>marker_location = (lat, lon),
              tooltip = (if name row = [] then str ''Khachkar'' else name row)
                        @ [32, 8211, 32] @ location row\<rparr>)
          (filter (\<lambda>(row, lat, lon). imageurl row \<noteq> []) rows)"
    by (rule markers_filter)
  have l: "location talin_record = str ''Talin Kamsarakan (Talin)''"
    by (simp add: talin_record_def)
  have part2: "calls (final (run rd wr g f [talin_record])) = []
      \<and> df_geocoded (run rd wr g f [talin_record]) = [(talin_record, 40.3874, 43.8733)]
      \<and> result (run rd wr g f [talin_record]) =
          Inr [\<lparr>marker_location = (40.3874, 43.8733),
                tooltip = str ''Cross Stone 1'' @ [32, 8211, 32]
                          @ str ''Talin Kamsarakan (Talin)''\<rparr>]"
    using markers_talin by (simp add: run_manual_only [OF l])
  show ?thesis
    by (rule conjI [OF part1 part2])
qed

theorem markers_for_records_with_image_witness:
  "markers [(talin_record, 40.3874, 43.8733), (no_image_record, 40.3874, 43.8733)]
     = [\<lparr>marker_location = (40.3874, 43.8733),
         tooltip = str ''Cross Stone 1'' @ [32, 8211, 32] @ str ''Talin Kamsarakan (Talin)''\<rparr>]
   \<and> calls (final (run scenario_read_csv scenario_to_csv never_found None [talin_record])) = []"
proof -
  note T = markers_for_records_with_image
             [where rows = "[(talin_record, 40.3874, 43.8733), (no_image_record, 40.3874, 43.8733)]"
                and rd = scenario_read_csv and wr = scenario_to_csv
                and g = never_found and f = None]
  from T [THEN conjunct1] have
    "markers [(talin_record, 40.3874, 43.8733), (no_image_record, 40.3874, 43.8733)]
     = [\<lparr>marker_location = (40.3874, 43.8733),
         tooltip = str ''Cross Stone 1'' @ [32, 8211, 32] @ str ''Talin Kamsarakan (Talin)''\<rparr>]"
    by (simp add: talin_record_def no_image_record_def str_def)
  moreover from T [THEN conjunct2] have
    "calls (final (run scenario_read_csv scenario_to_csv never_found None [talin_record])) = []"
    by simp
  ultimately show ?thesis by (rule conjI)
qed

text \<open>
  C10: the locations handed to the resolver in a run are the distinct location strings
  of the input that are not keys of the loaded cache, in ascending lexicographic order.
  Each of them is resolved once: the live queries of the run are, in that order, one
  non-empty group of queries per pending location, each group an initial part of that
  location's six variants, and each pending location ends in exactly one new cache row or
  one notice. The run depends on the records only through the set of their location
  strings: other records with the same set give the same calls, notices, rows and file,
  and the run ends in an error for them exactly when it does for these.
\<close>

theorem pending_resolved_once_in_order:
  fixes rd :: "'f \<Rightarrow> cache_row list" and wr :: "cache_row list \<Rightarrow> 'f"
  shows
  "(sorted (pending (load_cache rd f) df)) \<and>
   (distinct (pending (load_cache rd f) df)) \<and>
   (set (pending (load_cache rd f) df)
      = {l \<in> location ` set df. Str l \<notin> dom (load_cache rd f)}) \<and>
   (\<exists>groups.
      list_all2 (\<lambda>l grp. grp \<noteq> [] \<and> prefix grp (variants (strip_parens l)))
        (pending (load_cache rd f) df) groups
      \<and> calls (final (run rd wr g f df)) = concat groups) \<and>
   (mset (map fst (new_rows (final (run rd wr g f df)))
          @ map Str (printed (final (run rd wr g f df))))
      = mset (map Str (pending (load_cache rd f) df))) \<and>
   (location ` set df' = location ` set df \<longrightarrow>
      final (run rd wr g f df') = final (run rd wr g f df)
      \<and> cache_file (run rd wr g f df') = cache_file (run rd wr g f df)
      \<and> (\<forall>e. (result (run rd wr g f df') = Inl e) = (result (run rd wr g f df) = Inl e)))"
proof -
  let ?s0 = "\<lparr>cache = load_cache rd f, new_rows = [], printed = [], calls = []\<rparr>"
  have fin: "final (run rd wr g f df) = resolve_loop g ?s0 (pending (load_cache rd f) df)"
    by (rule final_run)
  have part1: "sorted (pending (load_cache rd f) df)" by (rule sorted_pending)
  have part2: "distinct (pending (load_cache rd f) df)" by (rule distinct_pending)
  have part3: "set (pending (load_cache rd f) df)
      = {l \<in> location ` set df. Str l \<notin> dom (load_cache rd f)}"
    by (rule set_pending)
  have part4: "\<exists>groups.
      list_all2 (\<lambda>l grp. grp \<noteq> [] \<and> prefix grp (variants (strip_parens l)))
        (pending (load_cache rd f) df) groups
      \<and> calls (final (run rd wr g f df)) = concat groups"
    using resolve_loop_calls [of "pending (load_cache rd f) df" g ?s0] by (simp add: fin)
  have part5: "mset (map fst (new_rows (final (run rd wr g f df)))
          @ map Str (printed (final (run rd wr g f df))))
      = mset (map Str (pending (load_cache rd f) df))"
    by (rule run_outcomes)
  have part6: "location ` set df' = location ` set df \<longrightarrow>
      final (run rd wr g f df') = final (run rd wr g f df)
      \<and> cache_file (run rd wr g f df') = cache_file (run rd wr g f df)
      \<and> (\<forall>e. (result (run rd wr g f df') = Inl e) = (result (run rd wr g f df) = Inl e))"
  proof
    assume same: "location ` set df' = location ` set df"
    have p: "pending (load_cache rd f) df' = pending (load_cache rd f) df"
      using same by (rule pending_same_locations)
    have f': "final (run rd wr g f df') = final (run rd wr g f df)"
      by (simp add: final_run p)
    then have c': "cache_file (run rd wr g f df') = cache_file (run rd wr g f df)"
      using cache_file_run [of rd wr g f df'] cache_file_run [of rd wr g f df] by simp
    have "(location ` set df' = {}) = (location ` set df = {})" by (simp only: same)
    then have e1: "(df' = []) = (df = [])" by simp
    have e2: "(df_geocoded (run rd wr g f df') = []) = (df_geocoded (run rd wr g f df) = [])"
      by (simp only: df_geocoded_run f' geocoded_Nil_iff same)
    have r': "\<forall>e. (result (run rd wr g f df') = Inl e) = (result (run rd wr g f df) = Inl e)"
    proof
      fix e
      show "(result (run rd wr g f df') = Inl e) = (result (run rd wr g f df) = Inl e)"
        unfolding result_run [of rd wr g f df'] result_run [of rd wr g f df]
        using e1 e2 by simp
    qed
    from f' c' r' show "final (run rd wr g f df') = final (run rd wr g f df)
      \<and> cache_file (run rd wr g f df') = cache_file (run rd wr g f df)
      \<and> (\<forall>e. (result (run rd wr g f df') = Inl e) = (result (run rd wr g f df) = Inl e))"
      by simp
  qed
  show ?thesis
    by (rule conjI [OF part1 conjI [OF part2 conjI [OF part3 conjI [OF part4 conjI [OF part5 part6]]]]])
qed

theorem pending_resolved_once_in_order_witness:
  "location ` set [akhaltsikhe_record, akhaltsikhe_record] = location ` set [akhaltsikhe_record]
   \<and> pending (load_cache scenario_read_csv None) [akhaltsikhe_record, akhaltsikhe_record]
       = [str ''Akhaltsikhe'']
   \<and> calls (final (run scenario_read_csv scenario_to_csv georgia_only None
                      [akhaltsikhe_record, akhaltsikhe_record]))
       = [str ''Akhaltsikhe, Armenia'', str ''Akhaltsikhe, Turkey'', str ''Akhaltsikhe, Georgia'']"
proof -
  have s: "location ` set [akhaltsikhe_record, akhaltsikhe_record]
             = location ` set [akhaltsikhe_record]" by simp
  have c: "calls (final (run scenario_read_csv scenario_to_csv georgia_only None
                           [akhaltsikhe_record]))
             = [str ''Akhaltsikhe, Armenia'', str ''Akhaltsikhe, Turkey'',
                str ''Akhaltsikhe, Georgia'']"
    by (simp add: run_akhaltsikhe_final)
  have p: "pending (load_cache scenario_read_csv None) [akhaltsikhe_record, akhaltsikhe_record]
             = [str ''Akhaltsikhe'']"
    by (simp add: pending_def load_cache_absent akhaltsikhe_record_def manual_akhaltsikhe)
  from pending_resolved_once_in_order
         [where rd = scenario_read_csv and wr = scenario_to_csv and g = georgia_only
            and f = None and df = "[akhaltsikhe_record]"
            and df' = "[akhaltsikhe_record, akhaltsikhe_record]",
          THEN conjunct2, THEN conjunct2, THEN conjunct2, THEN conjunct2, THEN conjunct2] s c p
  show ?thesis by simp
qed

end
